theory Spec2Isabelle
  imports Main
begin

section \<open>Expiring web cache (0x02-redis\_basic/web.py)\<close>

text \<open>
  The module keeps no state of its own: every effect is a command sent to the Redis
  client \<^verbatim>\<open>r\<close> or a call of \<^verbatim>\<open>requests.get\<close>. The model threads a
  \<open>world\<close> through the four functions of the module: the Redis keyspace, the server
  clock in milliseconds, and the list of commands and HTTP requests issued so far.

  Byte strings and Python \<^verbatim>\<open>str\<close> values are both \<open>string\<close>: a \<^verbatim>\<open>str\<close> is
  represented by its UTF-8 encoding, which is what the Redis client sends for it, so
  encoding is the identity and decoding succeeds exactly on well-formed UTF-8.
\<close>

subsection \<open>Errors and HTTP results\<close>

datatype request_exception = ConnectionError | Timeout | TooManyRedirects | InvalidURL

datatype redis_error = NotAnInteger | IncrOverflow

datatype error =
    RequestException request_exception
  | ResponseError redis_error
  | UnicodeDecodeError
  | ValueError

record response =
  status_code :: nat
  resp_text :: string

datatype http_result = Raises request_exception | Returns response

type_synonym http = "string \<Rightarrow> http_result"

subsection \<open>The Redis keyspace\<close>

record entry =
  val :: string
  expire_at :: "nat option"

datatype event =
    Incr string
  | Get string
  | Setex string nat string
  | Del string
  | HttpGet string

record world =
  kv :: "string \<rightharpoonup> entry"
  now :: nat
  log :: "event list"

definition flushall :: "world \<Rightarrow> world" where
  "flushall s = s\<lparr>kv := Map.empty\<rparr>"

definition advance :: "nat \<Rightarrow> world \<Rightarrow> world" where
  "advance d s = s\<lparr>now := now s + d\<rparr>"

text \<open>A key whose expiry time lies in the past is invisible to every command.\<close>

definition lookup :: "world \<Rightarrow> string \<Rightarrow> entry option" where
  "lookup s k =
     (case kv s k of
        None \<Rightarrow> None
      | Some e \<Rightarrow>
          (case expire_at e of
             None \<Rightarrow> Some e
           | Some t \<Rightarrow> if now s > t then None else Some e))"

subsection \<open>Decimal integers\<close>

definition is_digit :: "char \<Rightarrow> bool" where
  "is_digit c = (48 \<le> (of_char c :: nat) \<and> (of_char c :: nat) \<le> 57)"

definition digit_val :: "char \<Rightarrow> nat" where
  "digit_val c = of_char c - 48"

definition digit_char :: "nat \<Rightarrow> char" where
  "digit_char d = char_of (48 + d)"

definition dec_val :: "string \<Rightarrow> nat" where
  "dec_val ds = foldl (\<lambda>acc c. acc * 10 + digit_val c) 0 ds"

function digits :: "nat \<Rightarrow> string" where
  "digits n = (if n < 10 then [digit_char n] else digits (n div 10) @ [digit_char (n mod 10)])"
  by pat_completeness auto
termination
  by (relation "measure id") auto

declare digits.simps [simp del]

definition show_int :: "int \<Rightarrow> string" where
  "show_int i = (if i < 0 then CHR ''-'' # digits (nat (- i)) else digits (nat i))"

definition LLONG_MAX :: int where
  "LLONG_MAX = 2 ^ 63 - 1"

definition LLONG_MIN :: int where
  "LLONG_MIN = - (2 ^ 63)"

text \<open>
  The server's reading of a value as a 64-bit signed integer: an optional minus sign,
  then a digit from 1 to 9, then digits; the single character 0 is zero. No plus sign,
  no spaces, no leading zeros, nothing out of range.
\<close>

definition string2ll :: "string \<Rightarrow> int option" where
  "string2ll s =
     (if s = ''0'' then Some 0
      else
        (let neg = (s \<noteq> [] \<and> hd s = CHR ''-'');
             ds = (if neg then tl s else s)
         in case ds of
              [] \<Rightarrow> None
            | d # r \<Rightarrow>
                if is_digit d \<and> d \<noteq> CHR ''0'' \<and> list_all is_digit r then
                  (let v = (if neg then - int (dec_val ds) else int (dec_val ds))
                   in if LLONG_MIN \<le> v \<and> v \<le> LLONG_MAX then Some v else None)
                else None))"

text \<open>
  Python's \<^verbatim>\<open>int(b)\<close> on a bytes object: white space is stripped at both ends, a
  sign may follow, then decimal digits in which single underscores may separate digits.
  The interpreter's optional limit on the number of digits is not modelled.
\<close>

definition is_space :: "char \<Rightarrow> bool" where
  "is_space c = ((of_char c :: nat) = 32 \<or> (9 \<le> (of_char c :: nat) \<and> (of_char c :: nat) \<le> 13))"

definition strip :: "string \<Rightarrow> string" where
  "strip b = rev (dropWhile is_space (rev (dropWhile is_space b)))"

fun py_digits :: "bool \<Rightarrow> nat \<Rightarrow> string \<Rightarrow> nat option" where
  "py_digits prev acc [] = (if prev then Some acc else None)"
| "py_digits prev acc (c # cs) =
     (if is_digit c then py_digits True (acc * 10 + digit_val c) cs
      else if c = CHR ''_'' \<and> prev then py_digits False acc cs
      else None)"

definition py_int :: "string \<Rightarrow> error + int" where
  "py_int b =
     (let t = strip b;
          neg = (t \<noteq> [] \<and> hd t = CHR ''-'');
          r = (if t \<noteq> [] \<and> (hd t = CHR ''-'' \<or> hd t = CHR ''+'') then tl t else t)
      in case py_digits False 0 r of
           None \<Rightarrow> Inl ValueError
         | Some n \<Rightarrow> Inr (if neg then - int n else int n))"

subsection \<open>UTF-8\<close>

definition cont :: "nat \<Rightarrow> bool" where
  "cont b = (128 \<le> b \<and> b \<le> 191)"

fun utf8_ok :: "nat list \<Rightarrow> bool" where
  "utf8_ok [] = True"
| "utf8_ok (a # bs) =
     (if a < 128 then utf8_ok bs
      else if 194 \<le> a \<and> a \<le> 223 then
        (case bs of b # r \<Rightarrow> cont b \<and> utf8_ok r | _ \<Rightarrow> False)
      else if 224 \<le> a \<and> a \<le> 239 then
        (case bs of
           b # c # r \<Rightarrow>
             (if a = 224 then 160 \<le> b \<and> b \<le> 191
              else if a = 237 then 128 \<le> b \<and> b \<le> 159
              else cont b) \<and> cont c \<and> utf8_ok r
         | _ \<Rightarrow> False)
      else if 240 \<le> a \<and> a \<le> 244 then
        (case bs of
           b # c # d # r \<Rightarrow>
             (if a = 240 then 144 \<le> b \<and> b \<le> 191
              else if a = 244 then 128 \<le> b \<and> b \<le> 143
              else cont b) \<and> cont c \<and> cont d \<and> utf8_ok r
         | _ \<Rightarrow> False)
      else False)"

definition utf8_valid :: "string \<Rightarrow> bool" where
  "utf8_valid b = utf8_ok (map of_char b)"

definition decode :: "string \<Rightarrow> error + string" where
  "decode b = (if utf8_valid b then Inr b else Inl UnicodeDecodeError)"

subsection \<open>Redis commands\<close>

definition redis_get :: "string \<Rightarrow> world \<Rightarrow> string option \<times> world" where
  "redis_get k s = (map_option val (lookup s k), s\<lparr>log := log s @ [Get k]\<rparr>)"

definition redis_incr :: "string \<Rightarrow> world \<Rightarrow> (error + int) \<times> world" where
  "redis_incr k s =
     (let s' = s\<lparr>log := log s @ [Incr k]\<rparr>
      in case lookup s k of
           None \<Rightarrow> (Inr 1, s'\<lparr>kv := (kv s)(k \<mapsto> \<lparr>val = show_int 1, expire_at = None\<rparr>)\<rparr>)
         | Some e \<Rightarrow>
             (case string2ll (val e) of
                None \<Rightarrow> (Inl (ResponseError NotAnInteger), s')
              | Some c \<Rightarrow>
                  if c = LLONG_MAX then (Inl (ResponseError IncrOverflow), s')
                  else (Inr (c + 1), s'\<lparr>kv := (kv s)(k \<mapsto> e\<lparr>val := show_int (c + 1)\<rparr>)\<rparr>)))"

definition redis_setex :: "string \<Rightarrow> nat \<Rightarrow> string \<Rightarrow> world \<Rightarrow> world" where
  "redis_setex k ttl v s =
     s\<lparr>kv := (kv s)(k \<mapsto> \<lparr>val = v, expire_at = Some (now s + ttl * 1000)\<rparr>),
       log := log s @ [Setex k ttl v]\<rparr>"

definition redis_delete :: "string \<Rightarrow> world \<Rightarrow> world" where
  "redis_delete k s = s\<lparr>kv := (kv s)(k := None), log := log s @ [Del k]\<rparr>"

subsection \<open>The module\<close>

text \<open>Truthiness of what \<^verbatim>\<open>r.get\<close> returns: \<^verbatim>\<open>None\<close> and \<^verbatim>\<open>b''\<close> are false.\<close>

definition truthy :: "string option \<Rightarrow> string option" where
  "truthy c = (case c of None \<Rightarrow> None | Some b \<Rightarrow> if b = [] then None else Some b)"

definition count_key :: "string \<Rightarrow> string" where
  "count_key url = ''count:'' @ url"

definition cache_key :: "string \<Rightarrow> string" where
  "cache_key url = ''cache:'' @ url"

definition count_calls ::
  "(http \<Rightarrow> string \<Rightarrow> world \<Rightarrow> (error + string) \<times> world) \<Rightarrow>
   http \<Rightarrow> string \<Rightarrow> world \<Rightarrow> (error + string) \<times> world" where
  "count_calls method requests_get url s =
     (let key = count_key url;
          (count, s1) = redis_incr key s
      in case count of
           Inl e \<Rightarrow> (Inl e, s1)
         | Inr _ \<Rightarrow> method requests_get url s1)"

text \<open>The body of \<^verbatim>\<open>get_page\<close>, before the decorator is applied.\<close>

definition get_page_body :: "http \<Rightarrow> string \<Rightarrow> world \<Rightarrow> (error + string) \<times> world" where
  "get_page_body requests_get url s =
     (let (cached_content, s1) = redis_get (cache_key url) s
      in case truthy cached_content of
           Some b \<Rightarrow> (decode b, s1)
         | None \<Rightarrow>
             (let s2 = s1\<lparr>log := log s1 @ [HttpGet url]\<rparr>
              in case requests_get url of
                   Raises x \<Rightarrow> (Inl (RequestException x), s2)
                 | Returns response \<Rightarrow>
                     (let html_content = resp_text response;
                          s3 = redis_setex (cache_key url) 10 html_content s2
                      in (Inr html_content, s3))))"

definition get_page :: "http \<Rightarrow> string \<Rightarrow> world \<Rightarrow> (error + string) \<times> world" where
  "get_page = count_calls get_page_body"

definition get_count :: "string \<Rightarrow> world \<Rightarrow> (error + int) \<times> world" where
  "get_count url s =
     (let (count, s1) = redis_get (count_key url) s
      in (case truthy count of None \<Rightarrow> Inr 0 | Some b \<Rightarrow> py_int b, s1))"

definition reset_count :: "string \<Rightarrow> world \<Rightarrow> world" where
  "reset_count url s = redis_delete (count_key url) s"

subsection \<open>Sessions\<close>

text \<open>
  The script's own self-test clears the store, then alternates calls of the module with
  waiting. A session is such a sequence of calls, each \<^verbatim>\<open>get_page\<close> with the answer
  the network gives at that moment.
\<close>

datatype call = Fetch http string | Count string | Sleep nat

fun run :: "call list \<Rightarrow> world \<Rightarrow> world" where
  "run [] s = s"
| "run (Fetch requests_get url # cs) s = run cs (snd (get_page requests_get url s))"
| "run (Count url # cs) s = run cs (snd (get_count url s))"
| "run (Sleep d # cs) s = run cs (advance d s)"


definition fresh :: world where
  "fresh = flushall \<lparr>kv = Map.empty, now = 0, log = []\<rparr>"

definition serve :: "nat \<Rightarrow> string \<Rightarrow> http" where
  "serve code body url = Returns \<lparr>status_code = code, resp_text = body\<rparr>"


section \<open>Decimal round trips\<close>

lemma char_of_48: "char_of (48::nat) = CHR ''0''"
  by code_simp

lemma of_char_digit_char: "d < 10 \<Longrightarrow> (of_char (digit_char d) :: nat) = 48 + d"
  by (simp add: digit_char_def)

lemma is_digit_digit_char: "d < 10 \<Longrightarrow> is_digit (digit_char d)"
  by (simp add: is_digit_def of_char_digit_char)

lemma digit_val_digit_char: "d < 10 \<Longrightarrow> digit_val (digit_char d) = d"
  by (simp add: digit_val_def of_char_digit_char)

lemma digit_char_eq_zero: "d < 10 \<Longrightarrow> digit_char d = CHR ''0'' \<longleftrightarrow> d = 0"
proof
  assume d: "d < 10" and "digit_char d = CHR ''0''"
  then have "(of_char (digit_char d) :: nat) = of_char CHR ''0''" by simp
  with d show "d = 0" by (simp add: of_char_digit_char)
next
  assume "d < 10" "d = 0" then show "digit_char d = CHR ''0''" by (simp add: digit_char_def char_of_48)
qed

lemma digits_nonempty: "digits n \<noteq> []"
  by (subst digits.simps) simp

lemma digits_all: "list_all is_digit (digits n)"
proof (induction n rule: digits.induct)
  case (1 n)
  show ?case
  proof (cases "n < 10")
    case True
    then show ?thesis by (subst digits.simps) (simp add: is_digit_digit_char)
  next
    case False
    with 1 show ?thesis by (subst digits.simps) (simp add: is_digit_digit_char)
  qed
qed

lemma dec_val_snoc: "dec_val (ds @ [c]) = dec_val ds * 10 + digit_val c"
  by (simp add: dec_val_def)

lemma dec_val_digits: "dec_val (digits n) = n"
proof (induction n rule: digits.induct)
  case (1 n)
  show ?case
  proof (cases "n < 10")
    case True
    then show ?thesis by (subst digits.simps) (simp add: dec_val_def digit_val_digit_char)
  next
    case False
    with 1 show ?thesis by (subst digits.simps) (simp add: dec_val_snoc digit_val_digit_char)
  qed
qed

lemma hd_digits: "0 < n \<Longrightarrow> hd (digits n) \<noteq> CHR ''0''"
proof (induction n rule: digits.induct)
  case (1 n)
  show ?case
  proof (cases "n < 10")
    case True
    with 1 show ?thesis by (subst digits.simps) (simp add: digit_char_eq_zero)
  next
    case False
    then have "0 < n div 10" by simp
    with 1 False show ?thesis by (subst digits.simps) (simp add: digits_nonempty)
  qed
qed

lemma digits_0: "digits 0 = ''0''"
  by (subst digits.simps) (simp add: digit_char_def char_of_48)

lemma is_digit_not_minus: "is_digit c \<Longrightarrow> c \<noteq> CHR ''-''"
  by (auto simp: is_digit_def)

lemma digits_cases: "\<exists>d r. digits n = d # r \<and> is_digit d \<and> list_all is_digit r"
  using digits_all [of n] digits_nonempty [of n] by (cases "digits n") auto

lemma string2ll_show_int:
  assumes "LLONG_MIN \<le> i" "i \<le> LLONG_MAX"
  shows "string2ll (show_int i) = Some i"
proof -
  consider "i = 0" | "0 < i" | "i < 0" by linarith
  then show ?thesis
  proof cases
    case 1
    then show ?thesis by (simp add: show_int_def digits_0 string2ll_def)
  next
    case 2
    obtain d r where dr: "digits (nat i) = d # r" "is_digit d" "list_all is_digit r"
      using digits_cases by blast
    from 2 have "hd (digits (nat i)) \<noteq> CHR ''0''" by (simp add: hd_digits)
    with dr have d0: "d \<noteq> CHR ''0''" by simp
    have dm: "d \<noteq> CHR ''-''" using dr is_digit_not_minus by blast
    have v: "dec_val (d # r) = nat i" using dec_val_digits [of "nat i"] dr by simp
    have ne: "d # r \<noteq> ''0''" using d0 by simp
    show ?thesis using 2 assms dr d0 dm v ne
      by (simp add: show_int_def string2ll_def Let_def)
  next
    case 3
    obtain d r where dr: "digits (nat (- i)) = d # r" "is_digit d" "list_all is_digit r"
      using digits_cases by blast
    from 3 have "hd (digits (nat (- i))) \<noteq> CHR ''0''" by (simp add: hd_digits)
    with dr have d0: "d \<noteq> CHR ''0''" by simp
    have v: "dec_val (d # r) = nat (- i)" using dec_val_digits [of "nat (- i)"] dr by simp
    show ?thesis using 3 assms dr d0 v
      by (simp add: show_int_def string2ll_def Let_def)
  qed
qed

lemma py_digits_all:
  "list_all is_digit ds \<Longrightarrow> ds \<noteq> [] \<or> p \<Longrightarrow>
   py_digits p acc ds = Some (foldl (\<lambda>a c. a * 10 + digit_val c) acc ds)"
  by (induction ds arbitrary: p acc) auto

lemma is_digit_not_space: "is_digit c \<Longrightarrow> \<not> is_space c"
  by (auto simp: is_digit_def is_space_def)

lemma is_digit_not_plus: "is_digit c \<Longrightarrow> c \<noteq> CHR ''+''"
  by (auto simp: is_digit_def)

lemma minus_not_space: "\<not> is_space CHR ''-''"
  by (simp add: is_space_def)

lemma strip_id: "s \<noteq> [] \<Longrightarrow> \<not> is_space (hd s) \<Longrightarrow> \<not> is_space (last s) \<Longrightarrow> strip s = s"
proof -
  assume a: "s \<noteq> []" "\<not> is_space (hd s)" "\<not> is_space (last s)"
  then have 1: "dropWhile is_space s = s" by (cases s) auto
  from a have "rev s \<noteq> []" "\<not> is_space (hd (rev s))" by (simp_all add: hd_rev)
  then have 2: "dropWhile is_space (rev s) = rev s" by (cases "rev s") auto
  show ?thesis by (simp add: strip_def 1 2)
qed

lemma string2ll_py_int:
  assumes "string2ll s = Some c"
  shows "py_int s = Inr c \<and> s \<noteq> []"
proof (cases "s = ''0''")
  case True
  with assms show ?thesis
    by (simp add: string2ll_def py_int_def strip_def is_space_def is_digit_def digit_val_def)
next
  case False
  define neg where "neg = (s \<noteq> [] \<and> hd s = CHR ''-'')"
  define ds where "ds = (if neg then tl s else s)"
  from assms False obtain d r where dr: "ds = d # r" "is_digit d" "list_all is_digit r"
    and c: "c = (if neg then - int (dec_val ds) else int (dec_val ds))"
    by (auto simp: string2ll_def Let_def neg_def ds_def split: list.splits if_splits)
  have sne: "s \<noteq> []" using dr ds_def neg_def by (cases s) (auto split: if_splits)
  have s_eq: "s = (if neg then CHR ''-'' # ds else ds)"
    using sne by (cases s) (auto simp: neg_def ds_def)
  have all: "list_all is_digit ds" using dr by simp
  have lastd: "is_digit (last ds)" using dr all by (metis last_in_set list.distinct(1) list_all_iff)
  have hd_ns: "\<not> is_space (hd s)"
    using s_eq dr is_digit_not_space minus_not_space by (cases neg) auto
  have last_s: "last s = last ds" using s_eq dr by (cases neg) auto
  have st: "strip s = s" using strip_id [OF sne hd_ns] lastd last_s is_digit_not_space by simp
  have pd: "py_digits False 0 ds = Some (dec_val ds)"
    using py_digits_all [OF all, of False 0] dr by (simp add: dec_val_def)
  show ?thesis
  proof (cases neg)
    case True
    then have "s = CHR ''-'' # ds" using s_eq by simp
    then show ?thesis using st pd c True by (simp add: py_int_def Let_def)
  next
    case False
    then have e: "s = d # r" using s_eq dr by simp
    have "d \<noteq> CHR ''-''" "d \<noteq> CHR ''+''"
      using dr is_digit_not_minus is_digit_not_plus by blast+
    then show ?thesis using st pd c False e dr by (simp add: py_int_def Let_def)
  qed
qed

section \<open>The store under the commands\<close>


lemma count_cache_distinct: "count_key u \<noteq> cache_key v"
  by (simp add: count_key_def cache_key_def)

lemma string2ll_range: "string2ll s = Some c \<Longrightarrow> LLONG_MIN \<le> c \<and> c \<le> LLONG_MAX"
  by (auto simp: string2ll_def Let_def LLONG_MIN_def LLONG_MAX_def split: if_splits list.splits)

lemma py_int_show_int:
  "LLONG_MIN \<le> i \<Longrightarrow> i \<le> LLONG_MAX \<Longrightarrow> py_int (show_int i) = Inr i \<and> show_int i \<noteq> []"
  using string2ll_py_int [OF string2ll_show_int] by blast

lemma redis_incr_now: "now (snd (redis_incr k s)) = now s"
  by (simp add: redis_incr_def Let_def split: option.splits)

lemma redis_incr_log: "log (snd (redis_incr k s)) = log s @ [Incr k]"
  by (simp add: redis_incr_def Let_def split: option.splits)

lemma redis_incr_kv_other: "k' \<noteq> k \<Longrightarrow> kv (snd (redis_incr k s)) k' = kv s k'"
  by (simp add: redis_incr_def Let_def split: option.splits)


lemma redis_incr_ok:
  assumes "fst (redis_incr k s) = Inr n"
  shows "\<exists>x. kv (snd (redis_incr k s)) = (kv s)(k \<mapsto> \<lparr>val = show_int n, expire_at = x\<rparr>)
             \<and> lookup (snd (redis_incr k s)) k = Some \<lparr>val = show_int n, expire_at = x\<rparr>"
    and "LLONG_MIN \<le> n" and "n \<le> LLONG_MAX"
proof -
  show "\<exists>x. kv (snd (redis_incr k s)) = (kv s)(k \<mapsto> \<lparr>val = show_int n, expire_at = x\<rparr>)
             \<and> lookup (snd (redis_incr k s)) k = Some \<lparr>val = show_int n, expire_at = x\<rparr>"
  proof (cases "lookup s k")
    case None
    with assms show ?thesis by (auto simp: redis_incr_def Let_def lookup_def)
  next
    case (Some e)
    with assms obtain c where c: "string2ll (val e) = Some c" "c \<noteq> LLONG_MAX" "n = c + 1"
      by (auto simp: redis_incr_def Let_def split: option.splits if_splits)
    from Some have live: "kv s k = Some e" "\<forall>t. expire_at e = Some t \<longrightarrow> \<not> now s > t"
      by (auto simp: lookup_def split: option.splits if_splits)
    have upd: "e\<lparr>val := v\<rparr> = \<lparr>val = v, expire_at = expire_at e\<rparr>" for v by simp
    have res: "snd (redis_incr k s) =
        s\<lparr>log := log s @ [Incr k], kv := (kv s)(k \<mapsto> \<lparr>val = show_int n, expire_at = expire_at e\<rparr>)\<rparr>"
      using Some c by (cases e) (simp add: redis_incr_def Let_def)
    show ?thesis
      by (rule exI [of _ "expire_at e"]) (use live in \<open>auto simp: res lookup_def split: option.splits\<close>)
  qed
  show "LLONG_MIN \<le> n" "n \<le> LLONG_MAX"
    using assms
    by (auto simp: redis_incr_def Let_def LLONG_MIN_def LLONG_MAX_def
             split: option.splits if_splits dest!: string2ll_range)
qed


lemma get_count_lookup:
  "lookup s (count_key u) = Some \<lparr>val = show_int n, expire_at = x\<rparr> \<Longrightarrow>
   LLONG_MIN \<le> n \<Longrightarrow> n \<le> LLONG_MAX \<Longrightarrow> fst (get_count u s) = Inr n"
  using py_int_show_int [of n] by (simp add: get_count_def redis_get_def truthy_def)

lemma get_count_absent: "lookup s (count_key u) = None \<Longrightarrow> fst (get_count u s) = Inr 0"
  by (simp add: get_count_def redis_get_def truthy_def)


subsection \<open>\<^verbatim>\<open>get_page\<close>, one step at a time\<close>

lemma get_page_incr_fail:
  "fst (redis_incr (count_key u) s) = Inl e \<Longrightarrow>
   get_page h u s = (Inl e, snd (redis_incr (count_key u) s))"
  by (cases "redis_incr (count_key u) s") (simp add: get_page_def count_calls_def)

lemma get_page_incr_ok:
  "fst (redis_incr (count_key u) s) = Inr n \<Longrightarrow>
   get_page h u s = get_page_body h u (snd (redis_incr (count_key u) s))"
  by (cases "redis_incr (count_key u) s") (simp add: get_page_def count_calls_def)

lemma body_hit:
  "lookup s (cache_key u) = Some e \<Longrightarrow> val e \<noteq> [] \<Longrightarrow>
   get_page_body h u s = (decode (val e), s\<lparr>log := log s @ [Get (cache_key u)]\<rparr>)"
  by (simp add: get_page_body_def redis_get_def truthy_def)

lemma body_miss_raises:
  "truthy (map_option val (lookup s (cache_key u))) = None \<Longrightarrow> h u = Raises x \<Longrightarrow>
   get_page_body h u s =
     (Inl (RequestException x), s\<lparr>log := log s @ [Get (cache_key u), HttpGet u]\<rparr>)"
  by (simp add: get_page_body_def redis_get_def)

lemma body_miss_returns:
  "truthy (map_option val (lookup s (cache_key u))) = None \<Longrightarrow> h u = Returns r \<Longrightarrow>
   get_page_body h u s =
     (Inr (resp_text r),
      s\<lparr>kv := (kv s)(cache_key u \<mapsto> \<lparr>val = resp_text r, expire_at = Some (now s + 10 * 1000)\<rparr>),
        log := log s @ [Get (cache_key u), HttpGet u, Setex (cache_key u) 10 (resp_text r)]\<rparr>)"
  by (simp add: get_page_body_def redis_get_def redis_setex_def Let_def)

lemma body_cases:
  obtains (hit) e where "lookup s (cache_key u) = Some e" "val e \<noteq> []"
  | (raises) x where "truthy (map_option val (lookup s (cache_key u))) = None" "h u = Raises x"
  | (returns) r where "truthy (map_option val (lookup s (cache_key u))) = None" "h u = Returns r"
proof (cases "truthy (map_option val (lookup s (cache_key u)))")
  case None
  then show ?thesis using raises returns by (cases "h u") auto
next
  case (Some b)
  then show ?thesis using hit by (auto simp: truthy_def split: option.splits if_splits)
qed

lemma body_now: "now (snd (get_page_body h u s)) = now s"
  by (cases rule: body_cases [where s=s and u=u and h=h]) (simp_all add: body_hit body_miss_raises body_miss_returns)

lemma body_kv_other: "k \<noteq> cache_key u \<Longrightarrow> kv (snd (get_page_body h u s)) k = kv s k"
  by (cases rule: body_cases [where s=s and u=u and h=h]) (simp_all add: body_hit body_miss_raises body_miss_returns)



lemma get_page_now: "now (snd (get_page h u s)) = now s"
proof (cases "fst (redis_incr (count_key u) s)")
  case (Inl e) then show ?thesis by (simp add: get_page_incr_fail redis_incr_now)
next
  case (Inr n) then show ?thesis by (simp add: get_page_incr_ok body_now redis_incr_now)
qed

lemma get_page_counter:
  "kv (snd (get_page h u s)) (count_key u) = kv (snd (redis_incr (count_key u) s)) (count_key u)"
proof (cases "fst (redis_incr (count_key u) s)")
  case (Inl e) then show ?thesis by (simp add: get_page_incr_fail)
next
  case (Inr n) then show ?thesis by (simp add: get_page_incr_ok body_kv_other count_cache_distinct)
qed



lemma lookup_cong: "kv s' k = kv s k \<Longrightarrow> now s' = now s \<Longrightarrow> lookup s' k = lookup s k"
  by (simp add: lookup_def split: option.splits)

subsection \<open>When the increment is accepted, and two calls that fail\<close>

text \<open>
  The store accepts \<^verbatim>\<open>INCR\<close> when the key is absent or holds a 64-bit integer below
  the largest one. A cached body that is not UTF-8, or a counter key that holds
  something else than an integer, makes \<^verbatim>\<open>get_page\<close> raise.
\<close>

lemma redis_incr_accepted_iff:
  "fst (redis_incr k s) = Inr n \<longleftrightarrow>
     (lookup s k = None \<and> n = 1) \<or>
     (\<exists>e c. lookup s k = Some e \<and> string2ll (val e) = Some c \<and> c \<noteq> LLONG_MAX \<and> n = c + 1)"
  by (auto simp: redis_incr_def Let_def split: option.splits)

lemma get_page_undecodable:
  "fst (get_page (serve 200 ''hello'') ''http://example.test''
          (redis_setex (cache_key ''http://example.test'') 10 [CHR 0xFF] fresh)) = Inl UnicodeDecodeError"
  by code_simp

lemma get_page_counter_not_integer:
  "fst (get_page (serve 200 ''hello'') ''http://example.test''
          (redis_setex (count_key ''http://example.test'') 10 ''many'' fresh)) =
     Inl (ResponseError NotAnInteger) \<and>
   log (snd (get_page (serve 200 ''hello'') ''http://example.test''
          (redis_setex (count_key ''http://example.test'') 10 ''many'' fresh))) =
     [Setex ''count:http://example.test'' 10 ''many'', Incr ''count:http://example.test'']"
  by code_simp

section \<open>The call counter\<close>



subsection \<open>Counting over a session\<close>

lemma lookup_advance_None: "lookup s k = None \<Longrightarrow> lookup (advance d s) k = None"
  by (auto simp: lookup_def advance_def split: option.splits if_splits)










section \<open>The cache\<close>

lemma redis_incr_lookup_other: "k' \<noteq> k \<Longrightarrow> lookup (snd (redis_incr k s)) k' = lookup s k'"
  by (rule lookup_cong [OF redis_incr_kv_other redis_incr_now])

lemma incr_cache_lookup: "lookup (snd (redis_incr (count_key u) s)) (cache_key u) = lookup s (cache_key u)"
  by (rule redis_incr_lookup_other) (simp add: count_key_def cache_key_def)


lemma get_page_hit:
  assumes "fst (redis_incr (count_key u) s) = Inr n"
    and "lookup s (cache_key u) = Some e" and "val e \<noteq> []"
  shows "fst (get_page h u s) = decode (val e)"
    and "log (snd (get_page h u s)) = log s @ [Incr (count_key u), Get (cache_key u)]"
    and "kv (snd (get_page h u s)) = kv (snd (redis_incr (count_key u) s))"
proof -
  have l: "lookup (snd (redis_incr (count_key u) s)) (cache_key u) = Some e"
    using assms(2) by (simp add: incr_cache_lookup)
  show "fst (get_page h u s) = decode (val e)"
    by (simp add: get_page_incr_ok [OF assms(1)] body_hit [OF l assms(3)])
  show "log (snd (get_page h u s)) = log s @ [Incr (count_key u), Get (cache_key u)]"
    by (simp add: get_page_incr_ok [OF assms(1)] body_hit [OF l assms(3)] redis_incr_log)
  show "kv (snd (get_page h u s)) = kv (snd (redis_incr (count_key u) s))"
    by (simp add: get_page_incr_ok [OF assms(1)] body_hit [OF l assms(3)])
qed

lemma get_page_miss_raises:
  assumes "fst (redis_incr (count_key u) s) = Inr n"
    and "truthy (map_option val (lookup s (cache_key u))) = None" and "h u = Raises x"
  shows "fst (get_page h u s) = Inl (RequestException x)"
    and "log (snd (get_page h u s)) = log s @ [Incr (count_key u), Get (cache_key u), HttpGet u]"
    and "kv (snd (get_page h u s)) = kv (snd (redis_incr (count_key u) s))"
proof -
  have l: "truthy (map_option val (lookup (snd (redis_incr (count_key u) s)) (cache_key u))) = None"
    using assms(2) by (simp add: incr_cache_lookup)
  show "fst (get_page h u s) = Inl (RequestException x)"
    by (simp add: get_page_incr_ok [OF assms(1)] body_miss_raises [where h=h, OF l assms(3)])
  show "log (snd (get_page h u s)) = log s @ [Incr (count_key u), Get (cache_key u), HttpGet u]"
    by (simp add: get_page_incr_ok [OF assms(1)] body_miss_raises [where h=h, OF l assms(3)] redis_incr_log)
  show "kv (snd (get_page h u s)) = kv (snd (redis_incr (count_key u) s))"
    by (simp add: get_page_incr_ok [OF assms(1)] body_miss_raises [where h=h, OF l assms(3)])
qed

lemma get_page_miss_returns:
  assumes "fst (redis_incr (count_key u) s) = Inr n"
    and "truthy (map_option val (lookup s (cache_key u))) = None" and "h u = Returns r"
  shows "fst (get_page h u s) = Inr (resp_text r)"
    and "log (snd (get_page h u s)) =
           log s @ [Incr (count_key u), Get (cache_key u), HttpGet u, Setex (cache_key u) 10 (resp_text r)]"
    and "kv (snd (get_page h u s)) =
           (kv (snd (redis_incr (count_key u) s)))
             (cache_key u \<mapsto> \<lparr>val = resp_text r, expire_at = Some (now s + 10 * 1000)\<rparr>)"
proof -
  have l: "truthy (map_option val (lookup (snd (redis_incr (count_key u) s)) (cache_key u))) = None"
    using assms(2) by (simp add: incr_cache_lookup)
  show "fst (get_page h u s) = Inr (resp_text r)"
    by (simp add: get_page_incr_ok [OF assms(1)] body_miss_returns [where h=h, OF l assms(3)])
  show "log (snd (get_page h u s)) =
           log s @ [Incr (count_key u), Get (cache_key u), HttpGet u, Setex (cache_key u) 10 (resp_text r)]"
    by (simp add: get_page_incr_ok [OF assms(1)] body_miss_returns [where h=h, OF l assms(3)] redis_incr_log)
  show "kv (snd (get_page h u s)) =
           (kv (snd (redis_incr (count_key u) s)))
             (cache_key u \<mapsto> \<lparr>val = resp_text r, expire_at = Some (now s + 10 * 1000)\<rparr>)"
    by (simp add: get_page_incr_ok [OF assms(1)] body_miss_returns [where h=h, OF l assms(3)] redis_incr_now)
qed




text \<open>
  Claim C9. When the cache key of the URL is present and holds the empty byte string,
  \<^verbatim>\<open>get_page\<close> goes the way of a miss: after the increment and the read of the cache it
  makes an HTTP GET of the URL, and when the client returns a response it overwrites the
  entry with the new body and a fresh time to live and returns the new body.
\<close>

theorem get_page_empty_body_is_miss:
  assumes "fst (redis_incr (count_key u) s) = Inr n"
    and "lookup s (cache_key u) = Some e" and "val e = []"
  shows "(\<exists>rest. log (snd (get_page h u s)) =
            log s @ [Incr (count_key u), Get (cache_key u), HttpGet u] @ rest) \<and>
         (\<forall>r. h u = Returns r \<longrightarrow>
            fst (get_page h u s) = Inr (resp_text r) \<and>
            log (snd (get_page h u s)) =
              log s @ [Incr (count_key u), Get (cache_key u), HttpGet u, Setex (cache_key u) 10 (resp_text r)] \<and>
            kv (snd (get_page h u s)) (cache_key u) =
              Some \<lparr>val = resp_text r, expire_at = Some (now s + 10 * 1000)\<rparr>)"
proof -
  have m: "truthy (map_option val (lookup s (cache_key u))) = None"
    using assms(2,3) by (simp add: truthy_def)
  show ?thesis
  proof (cases "h u")
    case (Raises x)
    from get_page_miss_raises [where h=h, OF assms(1) m Raises] Raises show ?thesis by simp
  next
    case (Returns r)
    from get_page_miss_returns [where h=h, OF assms(1) m Returns] Returns show ?thesis by simp
  qed
qed

theorem get_page_empty_body_is_miss_witness:
  "lookup (redis_setex (cache_key ''http://example.test'') 10 [] fresh) (cache_key ''http://example.test'') =
     Some \<lparr>val = [], expire_at = Some 10000\<rparr> \<and>
   fst (get_page (serve 200 ''hello'') ''http://example.test''
          (redis_setex (cache_key ''http://example.test'') 10 [] fresh)) = Inr ''hello'' \<and>
   kv (snd (get_page (serve 200 ''hello'') ''http://example.test''
          (redis_setex (cache_key ''http://example.test'') 10 [] fresh))) (cache_key ''http://example.test'') =
     Some \<lparr>val = ''hello'', expire_at = Some 10000\<rparr>"
proof -
  have a: "fst (redis_incr (count_key ''http://example.test'')
             (redis_setex (cache_key ''http://example.test'') 10 [] fresh)) = Inr 1"
    by (simp add: redis_incr_def redis_setex_def fresh_def flushall_def lookup_def
                  count_key_def cache_key_def)
  have b: "lookup (redis_setex (cache_key ''http://example.test'') 10 [] fresh)
             (cache_key ''http://example.test'') = Some \<lparr>val = [], expire_at = Some 10000\<rparr>"
    by (simp add: redis_setex_def fresh_def flushall_def lookup_def)
  have c: "val \<lparr>val = [], expire_at = Some (10000::nat)\<rparr> = []" by simp
  have d: "serve 200 ''hello'' ''http://example.test'' =
      Returns \<lparr>status_code = 200, resp_text = ''hello''\<rparr>"
    by (simp add: serve_def)
  have e: "now (redis_setex (cache_key ''http://example.test'') 10 [] fresh) = 0"
    by (simp add: redis_setex_def fresh_def flushall_def)
  from get_page_empty_body_is_miss [where h="serve 200 ''hello''", OF a b c] b d e
  show ?thesis by simp
qed

section \<open>Failures\<close>

lemma get_count_after_get_page:
  assumes ok: "fst (redis_incr (count_key u) s) = Inr n"
  shows "fst (get_count u (snd (get_page h u s))) = Inr n"
proof -
  from redis_incr_ok [OF ok] obtain x where
    x: "lookup (snd (redis_incr (count_key u) s)) (count_key u) = Some \<lparr>val = show_int n, expire_at = x\<rparr>"
    and r: "LLONG_MIN \<le> n" "n \<le> LLONG_MAX" by blast
  have "lookup (snd (get_page h u s)) (count_key u) = lookup (snd (redis_incr (count_key u) s)) (count_key u)"
    by (rule lookup_cong) (simp_all add: get_page_counter get_page_now redis_incr_now)
  with x r show ?thesis by (simp add: get_count_lookup)
qed







section \<open>Resetting the counter\<close>

lemma reset_count_world:
  "reset_count u s = s\<lparr>kv := (kv s)(count_key u := None), log := log s @ [Del (count_key u)]\<rparr>"
  by (simp add: reset_count_def redis_delete_def)

lemma lookup_reset: "lookup (reset_count u s) (count_key u) = None"
  by (simp add: reset_count_world lookup_def)

text \<open>
  Claim C6. \<^verbatim>\<open>reset_count\<close> removes the counter key of the URL from the keyspace (it does
  not store a zero), touches no other key and not the clock. After it \<^verbatim>\<open>get_count\<close>
  answers 0, and after one more \<^verbatim>\<open>get_page\<close> for the URL, at any later time and whatever
  that call does, \<^verbatim>\<open>get_count\<close> answers 1. A second reset leaves the keyspace as the
  first left it, and a reset where no counter key exists leaves the keyspace as it was.
  \<^verbatim>\<open>reset_count\<close> has no error result.
\<close>

theorem reset_count_deletes:
  "kv (reset_count u s) (count_key u) = None \<and>
   (\<forall>k. k \<noteq> count_key u \<longrightarrow> kv (reset_count u s) k = kv s k) \<and>
   now (reset_count u s) = now s \<and>
   fst (get_count u (reset_count u s)) = Inr 0 \<and>
   fst (get_count u (snd (get_page h u (advance d (reset_count u s))))) = Inr 1 \<and>
   kv (reset_count u (reset_count u s)) = kv (reset_count u s) \<and>
   (kv s (count_key u) = None \<longrightarrow> kv (reset_count u s) = kv s)"
proof (intro conjI allI impI)
  show "kv (reset_count u s) (count_key u) = None" by (simp add: reset_count_world)
  show "kv (reset_count u s) k = kv s k" if "k \<noteq> count_key u" for k
    using that by (simp add: reset_count_world)
  show "now (reset_count u s) = now s" by (simp add: reset_count_world)
  show "fst (get_count u (reset_count u s)) = Inr 0"
    by (rule get_count_absent [OF lookup_reset])
  have "lookup (advance d (reset_count u s)) (count_key u) = None"
    by (rule lookup_advance_None [OF lookup_reset])
  then have "fst (redis_incr (count_key u) (advance d (reset_count u s))) = Inr 1"
    by (simp add: redis_incr_def Let_def)
  then show "fst (get_count u (snd (get_page h u (advance d (reset_count u s))))) = Inr 1"
    by (rule get_count_after_get_page)
  show "kv (reset_count u (reset_count u s)) = kv (reset_count u s)"
    by (simp add: reset_count_world)
  show "kv (reset_count u s) = kv s" if "kv s (count_key u) = None"
    using that by (auto simp: reset_count_world)
qed

theorem reset_count_deletes_witness:
  "kv fresh (count_key ''http://example.test'') = None \<and>
   kv (reset_count ''http://example.test'' fresh) = kv fresh \<and>
   fst (get_count ''http://example.test'' (reset_count ''http://example.test'' fresh)) = Inr 0"
proof -
  have a: "kv fresh (count_key ''http://example.test'') = None"
    by (simp add: fresh_def flushall_def)
  from reset_count_deletes [of "''http://example.test''" fresh] a show ?thesis by blast
qed

section \<open>Expiry\<close>

lemma lookup_within_ttl:
  "kv s k = Some \<lparr>val = v, expire_at = Some t\<rparr> \<Longrightarrow> now s + d \<le> t \<Longrightarrow>
   lookup (advance d s) k = Some \<lparr>val = v, expire_at = Some t\<rparr>"
  by (simp add: lookup_def advance_def)

lemma lookup_after_ttl:
  "kv s k = Some \<lparr>val = v, expire_at = Some t\<rparr> \<Longrightarrow> t < now s + d \<Longrightarrow>
   lookup (advance d s) k = None"
  by (simp add: lookup_def advance_def)

lemma cached_body_within_ttl:
  assumes "fst (redis_incr (count_key u) s) = Inr n"
    and "truthy (map_option val (lookup s (cache_key u))) = None" and "h u = Returns r"
    and "resp_text r \<noteq> []" and "utf8_valid (resp_text r)" and "d \<le> 10 * 1000"
    and "fst (redis_incr (count_key u) (advance d (snd (get_page h u s)))) = Inr m"
  shows "fst (get_page h' u (advance d (snd (get_page h u s)))) = Inr (resp_text r)"
    and "log (snd (get_page h' u (advance d (snd (get_page h u s))))) =
           log (snd (get_page h u s)) @ [Incr (count_key u), Get (cache_key u)]"
proof -
  let ?s1 = "snd (get_page h u s)"
  have k: "kv ?s1 (cache_key u) = Some \<lparr>val = resp_text r, expire_at = Some (now s + 10 * 1000)\<rparr>"
    by (simp add: get_page_miss_returns(3) [where h=h, OF assms(1,2,3)])
  have "now ?s1 + d \<le> now s + 10 * 1000" using assms(6) by (simp add: get_page_now)
  from lookup_within_ttl [OF k this]
  have l: "lookup (advance d ?s1) (cache_key u) = Some \<lparr>val = resp_text r, expire_at = Some (now s + 10 * 1000)\<rparr>" .
  have v: "val \<lparr>val = resp_text r, expire_at = Some (now s + 10 * 1000)\<rparr> \<noteq> []"
    using assms(4) by simp
  note g = get_page_hit [where h=h', OF assms(7) l v]
  show "fst (get_page h' u (advance d ?s1)) = Inr (resp_text r)"
    using g(1) assms(5) by (simp add: decode_def)
  show "log (snd (get_page h' u (advance d ?s1))) = log ?s1 @ [Incr (count_key u), Get (cache_key u)]"
    using g(2) by (simp add: advance_def)
qed

lemma refetch_after_ttl:
  assumes "fst (redis_incr (count_key u) s) = Inr n"
    and "truthy (map_option val (lookup s (cache_key u))) = None" and "h u = Returns r"
    and "10 * 1000 < d"
    and "fst (redis_incr (count_key u) (advance d (snd (get_page h u s)))) = Inr m"
  shows "\<exists>rest. log (snd (get_page h' u (advance d (snd (get_page h u s))))) =
           log (snd (get_page h u s)) @ [Incr (count_key u), Get (cache_key u), HttpGet u] @ rest"
proof -
  let ?s1 = "snd (get_page h u s)"
  have k: "kv ?s1 (cache_key u) = Some \<lparr>val = resp_text r, expire_at = Some (now s + 10 * 1000)\<rparr>"
    by (simp add: get_page_miss_returns(3) [where h=h, OF assms(1,2,3)])
  have "now s + 10 * 1000 < now ?s1 + d" using assms(4) by (simp add: get_page_now)
  from lookup_after_ttl [OF k this]
  have l: "truthy (map_option val (lookup (advance d ?s1) (cache_key u))) = None"
    by (simp add: truthy_def)
  have la: "log (advance d ?s1) = log ?s1" by (simp add: advance_def)
  show ?thesis
  proof (cases "h' u")
    case (Raises x)
    from get_page_miss_raises(2) [where h=h', OF assms(5) l Raises] la show ?thesis by simp
  next
    case (Returns r')
    from get_page_miss_returns(2) [where h=h', OF assms(5) l Returns] la show ?thesis by simp
  qed
qed

section \<open>Empty bodies\<close>

text \<open>
  Claim C3 says that a present cache entry is returned as it is, with no network call
  and no cache write. The code tests the bytes it read for truth, not for presence: a
  page whose body is empty is written to the cache by the first call, is there (the
  store returns it, within its time to live), and the next call still makes the HTTP
  request and writes the cache again.
\<close>

theorem cached_empty_body_is_fetched_again:
  "fst (redis_get (cache_key ''http://example.test'')
          (snd (get_page (serve 200 []) ''http://example.test'' fresh))) = Some [] \<and>
   fst (get_page (serve 200 ''hello'') ''http://example.test''
          (snd (get_page (serve 200 []) ''http://example.test'' fresh))) = Inr ''hello'' \<and>
   log (snd (get_page (serve 200 ''hello'') ''http://example.test''
          (snd (get_page (serve 200 []) ''http://example.test'' fresh)))) =
     [Incr ''count:http://example.test'', Get ''cache:http://example.test'',
      HttpGet ''http://example.test'', Setex ''cache:http://example.test'' 10 [],
      Incr ''count:http://example.test'', Get ''cache:http://example.test'',
      HttpGet ''http://example.test'', Setex ''cache:http://example.test'' 10 ''hello'']"
  by code_simp

text \<open>
  Claim C7 says that a call within the time to live of a cached body returns that body
  with no new network call. Five seconds after an empty body was cached, with the entry
  still live in the store, the next call makes a second HTTP request and returns what
  the network answers now. For a body that is not empty the claim holds:
  \<open>cached_body_within_ttl\<close> and \<open>refetch_after_ttl\<close> above.
\<close>

theorem empty_body_refetched_within_ttl:
  "lookup (run [Fetch (serve 200 []) ''http://example.test'', Sleep 5000] fresh)
     (cache_key ''http://example.test'') = Some \<lparr>val = [], expire_at = Some 10000\<rparr> \<and>
   now (run [Fetch (serve 200 []) ''http://example.test'', Sleep 5000] fresh) = 5000 \<and>
   fst (get_page (serve 200 ''changed'') ''http://example.test''
          (run [Fetch (serve 200 []) ''http://example.test'', Sleep 5000] fresh)) = Inr ''changed'' \<and>
   count_list (log (snd (get_page (serve 200 ''changed'') ''http://example.test''
          (run [Fetch (serve 200 []) ''http://example.test'', Sleep 5000] fresh))))
      (HttpGet ''http://example.test'') = 2"
  by code_simp

text \<open>
  Claim C10 says that the body of a response with a status other than 2xx is cached and
  served to the callers that follow within the time to live. The status code is indeed
  never read (\<open>get_page_miss_returns\<close>), but an empty error body, cached and live, is
  not served: the next call goes to the network again.
\<close>

theorem empty_error_body_not_served:
  "lookup (run [Fetch (serve 500 []) ''http://example.test'', Sleep 1000] fresh)
     (cache_key ''http://example.test'') = Some \<lparr>val = [], expire_at = Some 10000\<rparr> \<and>
   fst (get_page (serve 200 ''recovered'') ''http://example.test''
          (run [Fetch (serve 500 []) ''http://example.test'', Sleep 1000] fresh)) = Inr ''recovered''"
  by code_simp

end
